theory Spec2Isabelle
  imports Main "HOL-Library.Sublist"
begin

section \<open>Artifact publication of \<open>cosmos/io.py\<close>\<close>

text \<open>
  This theory embeds the functions of \<^verbatim>\<open>src/cosmos/io.py\<close> in HOL and proves
  properties of them. Python strings are modelled as \<^typ>\<open>string\<close>, Python integers as
  \<^typ>\<open>int\<close>, exceptions as values of the type \<open>error\<close>, and everything the code reads
  from its surroundings (settings, the working directory, the local file system, the
  remote store) is an explicit argument. Leading underscores of Python names are dropped,
  since an Isabelle name cannot start with one.
\<close>

subsection \<open>Exceptions\<close>

text \<open>
  The source raises two exception classes, each at two places that differ in their message
  only; the constructors name the raise sites:
  \<^item> \<open>ExtractionError\<close>: \<^verbatim>\<open>ValueError("Could not find 'show' JSON array in string.")\<close>
  \<^item> \<open>MalformedPayload\<close>: \<^verbatim>\<open>ValueError(f"JSON decoding failed: {e}")\<close>
  \<^item> \<open>NotConfigured\<close>: \<^verbatim>\<open>CosmosValueError("You're trying to upload artifact files, but the
    remote target path is not configured.")\<close>
  \<^item> \<open>CapabilityUnavailable\<close>: \<^verbatim>\<open>CosmosValueError("You're trying to specify remote target
    path ..., but the required Object Storage feature is unavailable ...")\<close>

  The others are raised by the Python library under the source's calls:
  \<^item> \<open>NoPathSpecified\<close>: \<^verbatim>\<open>ValueError("no path specified")\<close> of \<^verbatim>\<open>os.path.relpath\<close>
  \<^item> \<open>EmptySeparator\<close>: \<^verbatim>\<open>ValueError("empty separator")\<close> of \<^verbatim>\<open>str.split\<close>
  \<^item> \<open>AttributeError\<close>: reading an attribute the object does not have
  \<^item> \<open>KeyExists\<close>: an upload without overwrite to a key that holds an object
  \<^item> \<open>NoCurrentContext\<close>: \<^verbatim>\<open>get_current_context()\<close> outside a running task
\<close>

datatype error =
    ExtractionError
  | MalformedPayload
  | NotConfigured
  | CapabilityUnavailable
  | NoPathSpecified
  | EmptySeparator
  | AttributeError string
  | KeyExists string
  | NoCurrentContext

subsection \<open>Python string operations\<close>

definition rstrip :: "char \<Rightarrow> string \<Rightarrow> string" where
  \<comment> \<open>\<^verbatim>\<open>s.rstrip(c)\<close> for a one-character argument\<close>
  "rstrip c s = rev (dropWhile (\<lambda>x. x = c) (rev s))"

definition lstrip :: "char \<Rightarrow> string \<Rightarrow> string" where
  \<comment> \<open>\<^verbatim>\<open>s.lstrip(c)\<close> for a one-character argument\<close>
  "lstrip c s = dropWhile (\<lambda>x. x = c) s"

fun split_chr :: "char \<Rightarrow> string \<Rightarrow> string list" where
  \<comment> \<open>\<^verbatim>\<open>s.split(c)\<close> for a one-character separator: never empty, \<^verbatim>\<open>"".split("/") == [""]\<close>\<close>
  "split_chr c [] = [[]]"
| "split_chr c (x # xs) =
     (if x = c then [] # split_chr c xs
      else (case split_chr c xs of
              [] \<Rightarrow> [[x]]
            | w # ws \<Rightarrow> (x # w) # ws))"

fun join :: "string \<Rightarrow> string list \<Rightarrow> string" where
  \<comment> \<open>\<^verbatim>\<open>sep.join(xs)\<close>\<close>
  "join sep [] = []"
| "join sep [x] = x"
| "join sep (x # y # ys) = x @ sep @ join sep (y # ys)"

definition startswith :: "string \<Rightarrow> string \<Rightarrow> bool" where
  "startswith s p = (take (length p) s = p)"

definition endswith :: "string \<Rightarrow> string \<Rightarrow> bool" where
  "endswith s p = (length p \<le> length s \<and> drop (length s - length p) s = p)"

fun str_nat :: "nat \<Rightarrow> string" where
  "str_nat n =
     (if n < 10 then [''0123456789'' ! n]
      else str_nat (n div 10) @ [''0123456789'' ! (n mod 10)])"

declare str_nat.simps [simp del]

definition str_int :: "int \<Rightarrow> string" where
  \<comment> \<open>\<^verbatim>\<open>f"{i}"\<close> for a Python \<^verbatim>\<open>int\<close>\<close>
  "str_int i = (if i < 0 then CHR ''-'' # str_nat (nat (- i)) else str_nat (nat i))"

subsection \<open>\<^verbatim>\<open>urllib.parse.urlparse(url).scheme\<close>\<close>

text \<open>
  The scheme as CPython's \<^verbatim>\<open>urlsplit\<close> finds it: leading C0 control characters and spaces
  are stripped from the URL, tabs and line breaks are removed everywhere, and if the text
  before the first colon is not empty, starts with an ASCII letter and consists of scheme
  characters, it is the scheme, in lower case; otherwise the scheme is empty.
\<close>

definition ascii_lower :: string where "ascii_lower = ''abcdefghijklmnopqrstuvwxyz''"
definition ascii_upper :: string where "ascii_upper = ''ABCDEFGHIJKLMNOPQRSTUVWXYZ''"

definition is_ascii_alpha :: "char \<Rightarrow> bool" where
  "is_ascii_alpha c = (c \<in> set (ascii_lower @ ascii_upper))"

definition scheme_chars :: string where
  "scheme_chars = ascii_lower @ ascii_upper @ ''0123456789'' @ ''+-.''"

definition lower_chr :: "char \<Rightarrow> char" where
  "lower_chr c = (case map_of (zip ascii_upper ascii_lower) c of Some l \<Rightarrow> l | None \<Rightarrow> c)"

definition is_c0_control_or_space :: "char \<Rightarrow> bool" where
  "is_c0_control_or_space c = ((of_char c :: nat) \<le> 32)"

definition unsafe_url_byte :: "char \<Rightarrow> bool" where
  "unsafe_url_byte c = (c = CHR 0x09 \<or> c = CHR 0x0D \<or> c = CHR 0x0A)"

definition urlparse_scheme :: "string \<Rightarrow> string" where
  "urlparse_scheme url0 =
     (let url = filter (\<lambda>c. \<not> unsafe_url_byte c) (dropWhile is_c0_control_or_space url0);
          head = takeWhile (\<lambda>c. c \<noteq> CHR '':'') url
      in if length head < length url \<and> head \<noteq> [] \<and> is_ascii_alpha (hd head)
            \<and> list_all (\<lambda>c. c \<in> set scheme_chars) head
         then map lower_chr head
         else [])"

subsection \<open>Settings and the remote store\<close>

text \<open>
  \<^verbatim>\<open>cosmos.settings\<close> holds the configured root, the optional connection id and the flag
  that says whether Airflow's object-storage module can be imported. A value of
  \<open>None\<close> is Python's \<^verbatim>\<open>None\<close>; \<^verbatim>\<open>not x\<close> is true of \<^verbatim>\<open>None\<close> and of the empty string.

  \<^verbatim>\<open>FILE_SCHEME_AIRFLOW_DEFAULT_CONN_ID_MAP\<close> is defined in \<^verbatim>\<open>cosmos.constants\<close>, outside
  the files at hand; it is an argument \<open>conn_map\<close> of the functions that read it.
\<close>

record settings =
  remote_target_path :: "string option"
  remote_target_path_conn_id :: "string option"
  AIRFLOW_IO_AVAILABLE :: bool

definition falsy :: "string option \<Rightarrow> bool" where
  \<comment> \<open>\<^verbatim>\<open>not x\<close> for an optional string\<close>
  "falsy x = (case x of None \<Rightarrow> True | Some s \<Rightarrow> s = [])"

text \<open>
  An \<^verbatim>\<open>ObjectStoragePath\<close> is the path string it was made from and its connection id.
  The remote store is what the storage backend offers through it: the directories that
  exist and the objects, a map from path to content. \<^verbatim>\<open>exists\<close>, \<^verbatim>\<open>mkdir\<close> and
  \<^verbatim>\<open>copy\<close> are the backend's capabilities; transport failures of the backend are outside
  the model.
\<close>

record ObjectStoragePath =
  osp_path :: string
  osp_conn_id :: "string option"

record remote =
  dirs :: "string set"
  objects :: "string \<rightharpoonup> string"

definition osp_exists :: "ObjectStoragePath \<Rightarrow> remote \<Rightarrow> bool" where
  "osp_exists p r = (osp_path p \<in> dirs r \<or> objects r (osp_path p) \<noteq> None)"

definition osp_mkdir :: "ObjectStoragePath \<Rightarrow> remote \<Rightarrow> remote" where
  \<comment> \<open>\<^verbatim>\<open>mkdir(parents=True, exist_ok=True)\<close>\<close>
  "osp_mkdir p r = r\<lparr>dirs := insert (osp_path p) (dirs r)\<rparr>"

definition osp_copy :: "string \<Rightarrow> ObjectStoragePath \<Rightarrow> remote \<Rightarrow> remote" where
  \<comment> \<open>\<^verbatim>\<open>ObjectStoragePath(file_path).copy(dst)\<close> for a local file of the given content:
      the destination is written, replacing what it held\<close>
  "osp_copy content dst r = r\<lparr>objects := (objects r)(osp_path dst \<mapsto> content)\<rparr>"

subsection \<open>\<^verbatim>\<open>_configure_remote_target_path\<close>\<close>

definition configure_remote_target_path ::
  "settings \<Rightarrow> (string \<rightharpoonup> string) \<Rightarrow> remote
    \<Rightarrow> (error + (ObjectStoragePath option \<times> string option)) \<times> remote" where
  "configure_remote_target_path st conn_map r =
     (case remote_target_path st of
        None \<Rightarrow> (Inr (None, None), r)
      | Some target_path_str \<Rightarrow>
          if target_path_str = [] then (Inr (None, None), r)
          else
            let remote_conn_id =
                  (if falsy (remote_target_path_conn_id st)
                   then conn_map (urlparse_scheme target_path_str)
                   else remote_target_path_conn_id st)
            in if remote_conn_id = None then (Inr (None, None), r)
               else if \<not> AIRFLOW_IO_AVAILABLE st then (Inl CapabilityUnavailable, r)
               else
                 let configured_target_path =
                       \<lparr>osp_path = target_path_str, osp_conn_id = remote_conn_id\<rparr>;
                     r' = (if \<not> osp_exists configured_target_path r
                           then osp_mkdir configured_target_path r else r)
                 in (Inr (Some configured_target_path, remote_conn_id), r'))"

subsection \<open>\<^verbatim>\<open>os.path\<close> on POSIX\<close>

text \<open>
  \<^verbatim>\<open>join\<close>, \<^verbatim>\<open>normpath\<close>, \<^verbatim>\<open>abspath\<close>, \<^verbatim>\<open>commonprefix\<close> and \<^verbatim>\<open>relpath\<close> as CPython's
  \<^verbatim>\<open>posixpath\<close> defines them. They work on the text of a path and never look at the file
  system; \<^verbatim>\<open>os.getcwd()\<close> is the argument \<open>cwd\<close>.
\<close>

definition isabs :: "string \<Rightarrow> bool" where
  "isabs p = startswith p ''/''"

definition posix_join :: "string \<Rightarrow> string \<Rightarrow> string" where
  "posix_join a b =
     (if startswith b ''/'' then b
      else if a = [] \<or> endswith a ''/'' then a @ b
      else a @ ''/'' @ b)"

fun normpath_comps :: "bool \<Rightarrow> string list \<Rightarrow> string list \<Rightarrow> string list" where
  \<comment> \<open>the loop \<^verbatim>\<open>for comp in comps\<close> of \<^verbatim>\<open>normpath\<close>, with \<^verbatim>\<open>new_comps\<close> as accumulator\<close>
  "normpath_comps initial_slashes new_comps [] = new_comps"
| "normpath_comps initial_slashes new_comps (part # comps) =
     (if part = [] \<or> part = ''.'' then normpath_comps initial_slashes new_comps comps
      else if part \<noteq> ''..'' \<or> (\<not> initial_slashes \<and> new_comps = [])
              \<or> (new_comps \<noteq> [] \<and> last new_comps = ''..'')
        then normpath_comps initial_slashes (new_comps @ [part]) comps
      else if new_comps \<noteq> [] then normpath_comps initial_slashes (butlast new_comps) comps
      else normpath_comps initial_slashes new_comps comps)"

definition normpath :: "string \<Rightarrow> string" where
  "normpath path =
     (if path = [] then ''.''
      else
        let initial_slashes =
              (if startswith path ''/''
               then (if startswith path ''//'' \<and> \<not> startswith path ''///'' then 2 else 1)
               else (0::nat));
            comps = normpath_comps (initial_slashes \<noteq> 0) [] (split_chr CHR ''/'' path);
            path' = replicate initial_slashes CHR ''/'' @ join ''/'' comps
        in if path' = [] then ''.'' else path')"

definition abspath :: "string \<Rightarrow> string \<Rightarrow> string" where
  "abspath cwd path = normpath (if \<not> isabs path then posix_join cwd path else path)"

fun commonprefix :: "string list \<Rightarrow> string list \<Rightarrow> string list" where
  \<comment> \<open>\<^verbatim>\<open>commonprefix([xs, ys])\<close>: the longest common prefix of the two lists\<close>
  "commonprefix (x # xs) (y # ys) = (if x = y then x # commonprefix xs ys else [])"
| "commonprefix _ _ = []"

definition relpath :: "string \<Rightarrow> string \<Rightarrow> string \<Rightarrow> error + string" where
  "relpath cwd path start =
     (if path = [] then Inl NoPathSpecified
      else
        let start_tail = lstrip CHR ''/'' (abspath cwd start);
            path_tail = lstrip CHR ''/'' (abspath cwd path);
            start_list = (if start_tail \<noteq> [] then split_chr CHR ''/'' start_tail else []);
            path_list = (if path_tail \<noteq> [] then split_chr CHR ''/'' path_tail else []);
            i = length (commonprefix start_list path_list);
            rel_list = replicate (length start_list - i) ''..'' @ drop i path_list
        in if rel_list = [] then Inr ''.'' else Inr (join ''/'' rel_list))"

subsection \<open>\<^verbatim>\<open>pathlib.Path\<close> on POSIX\<close>

text \<open>
  A \<^verbatim>\<open>Path\<close> is its root (\<^verbatim>\<open>""\<close>, \<^verbatim>\<open>"/"\<close> or \<^verbatim>\<open>"//"\<close>) and the list of its other parts;
  parsing drops empty parts and \<^verbatim>\<open>"."\<close>, and keeps \<^verbatim>\<open>".."\<close>. \<open>path_str\<close> is \<^verbatim>\<open>str(p)\<close>,
  \<open>path_div a b\<close> is \<^verbatim>\<open>Path(a) / b\<close> for two strings, and \<open>path_child p rel\<close> is the path
  that a directory scan below \<open>p\<close> makes for the entry with the relative parts \<open>rel\<close>.
\<close>

type_synonym path = "string \<times> string list"

definition splitroot :: "string \<Rightarrow> string \<times> string" where
  "splitroot p =
     (if take 1 p \<noteq> ''/'' then ([], p)
      else if take 1 (drop 1 p) \<noteq> ''/'' \<or> take 1 (drop 2 p) = ''/'' then (''/'', drop 1 p)
      else (take 2 p, drop 2 p))"

definition parse_path :: "string \<Rightarrow> path" where
  "parse_path p =
     (if p = [] then ([], [])
      else (fst (splitroot p),
            filter (\<lambda>x. x \<noteq> [] \<and> x \<noteq> ''.'') (split_chr CHR ''/'' (snd (splitroot p)))))"

definition path_str :: "path \<Rightarrow> string" where
  "path_str p = (let s = fst p @ join ''/'' (snd p) in if s = [] then ''.'' else s)"

definition path_div :: "string \<Rightarrow> string \<Rightarrow> path" where
  "path_div a b = parse_path (posix_join a b)"

definition path_child :: "path \<Rightarrow> string list \<Rightarrow> path" where
  "path_child p rel = (fst p, snd p @ rel)"

subsection \<open>The local file system\<close>

text \<open>
  A directory tree: a regular file with its content, or a directory with its entries in the
  order in which a scan returns them. The file system is a function \<open>fs\<close> from the text of
  a path to the tree found there, \<open>None\<close> if there is nothing. Symbolic links and special
  files are not modelled.
\<close>

datatype node = File string | Dir "(string \<times> node) list"

fun filenames :: "(string \<times> node) list \<Rightarrow> (string \<times> string) list" where
  \<comment> \<open>the entries that are not directories, with their content\<close>
  "filenames [] = []"
| "filenames ((n, File c) # es) = (n, c) # filenames es"
| "filenames ((n, Dir _) # es) = filenames es"

fun walk :: "string \<Rightarrow> node \<Rightarrow> (string \<times> (string \<times> string) list) list"
  and walk_dirs :: "string \<Rightarrow> (string \<times> node) list \<Rightarrow> (string \<times> (string \<times> string) list) list"
where
  \<comment> \<open>\<^verbatim>\<open>os.walk(top)\<close>, top down: \<^verbatim>\<open>(dirpath, filenames)\<close> for the directory, then for each
      subdirectory \<^verbatim>\<open>join(top, name)\<close>; nothing if \<open>top\<close> is not a directory\<close>
  "walk dirpath (File c) = []"
| "walk dirpath (Dir es) = (dirpath, filenames es) # walk_dirs dirpath es"
| "walk_dirs dirpath [] = []"
| "walk_dirs dirpath ((n, c) # es) = walk (posix_join dirpath n) c @ walk_dirs dirpath es"


fun rglob :: "string list \<Rightarrow> node \<Rightarrow> (string list \<times> node) list"
  and rglob_dirs :: "string list \<Rightarrow> (string \<times> node) list \<Rightarrow> (string list \<times> node) list"
where
  \<comment> \<open>\<^verbatim>\<open>p.rglob("*")\<close>: every entry below the directory, as its parts relative to \<open>p\<close>;
      the entries of a directory first, then those of its subdirectories\<close>
  "rglob pre (File c) = []"
| "rglob pre (Dir es) = map (\<lambda>(n, c). (pre @ [n], c)) es @ rglob_dirs pre es"
| "rglob_dirs pre [] = []"
| "rglob_dirs pre ((n, c) # es) = rglob (pre @ [n]) c @ rglob_dirs pre es"

fun regular_files :: "(string list \<times> node) list \<Rightarrow> (string list \<times> string) list" where
  \<comment> \<open>the filter \<^verbatim>\<open>if file.is_file()\<close>\<close>
  "regular_files [] = []"
| "regular_files ((rel, File c) # xs) = (rel, c) # regular_files xs"
| "regular_files ((rel, Dir _) # xs) = regular_files xs"

definition path_rglob_files :: "(string \<Rightarrow> node option) \<Rightarrow> path \<Rightarrow> (string \<times> string) list" where
  \<comment> \<open>\<^verbatim>\<open>[str(file) for file in p.rglob("*") if file.is_file()]\<close>, each with the file's content\<close>
  "path_rglob_files fs p =
     (case fs (path_str p) of
        None \<Rightarrow> []
      | Some t \<Rightarrow> map (\<lambda>(rel, c). (path_str (path_child p rel), c)) (regular_files (rglob [] t)))"

subsection \<open>The execution context\<close>

text \<open>
  The fields of \<^verbatim>\<open>kwargs["context"]\<close> that the code reads: \<^verbatim>\<open>context["dag"].dag_id\<close>,
  \<^verbatim>\<open>context["run_id"]\<close>, and of \<^verbatim>\<open>context["task_instance"]\<close> the attributes \<^verbatim>\<open>task_id\<close>,
  \<^verbatim>\<open>try_number\<close> and \<^verbatim>\<open>_try_number\<close>. The last one is private to Airflow 2 and absent in
  Airflow 3, where reading it raises \<^verbatim>\<open>AttributeError\<close>: it is optional here.
\<close>

record run_context =
  dag_id :: string
  run_id :: string
  task_id :: string
  try_number :: int
  priv_try_number :: "int option"

subsection \<open>\<^verbatim>\<open>_construct_dest_file_path\<close> and \<^verbatim>\<open>upload_to_cloud_storage\<close>\<close>

text \<open>
  \<open>dest_target_dir_str\<close> is \<^verbatim>\<open>str(dest_target_dir)\<close>. How an \<^verbatim>\<open>ObjectStoragePath\<close> prints is
  Airflow's business: \<open>upload_to_cloud_storage\<close> takes it as the argument \<open>osp_str\<close>.
\<close>

definition construct_dest_file_path ::
  "string \<Rightarrow> string \<Rightarrow> string \<Rightarrow> path \<Rightarrow> string \<Rightarrow> run_context \<Rightarrow> error + string" where
  "construct_dest_file_path cwd dest_target_dir_str file_path source_target_dir source_subpath ctx =
     (let dest_target_dir_str' = rstrip CHR ''/'' dest_target_dir_str;
          task_run_identifier =
            dag_id ctx @ ''/'' @ run_id ctx @ ''/'' @ task_id ctx @ ''/'' @ str_int (try_number ctx)
      in case relpath cwd file_path (path_str source_target_dir) of
           Inl e \<Rightarrow> Inl e
         | Inr rel \<Rightarrow>
             Inr (dest_target_dir_str' @ ''/'' @ task_run_identifier @ ''/'' @ source_subpath
                  @ ''/'' @ lstrip CHR ''/'' rel))"

text \<open>
  \<open>dest_key\<close> is the destination path in closed form: root, execution context, source
  subpath and the relative parts of the file, joined by \<^verbatim>\<open>"/"\<close>.
\<close>

definition dest_key :: "string \<Rightarrow> string \<Rightarrow> run_context \<Rightarrow> string list \<Rightarrow> string" where
  "dest_key root source_subpath ctx rel =
     join ''/'' [rstrip CHR ''/'' root, dag_id ctx, run_id ctx, task_id ctx,
                 str_int (try_number ctx), source_subpath, join ''/'' rel]"

fun copy_files ::
  "string \<Rightarrow> string \<Rightarrow> string option \<Rightarrow> path \<Rightarrow> string \<Rightarrow> run_context
    \<Rightarrow> (string \<times> string) list \<Rightarrow> remote \<Rightarrow> error option \<times> remote" where
  \<comment> \<open>the loop \<^verbatim>\<open>for file_path in files\<close>\<close>
  "copy_files cwd dest_str dest_conn_id src sub ctx [] r = (None, r)"
| "copy_files cwd dest_str dest_conn_id src sub ctx ((file_path, content) # files) r =
     (case construct_dest_file_path cwd dest_str file_path src sub ctx of
        Inl e \<Rightarrow> (Some e, r)
      | Inr dest_file_path \<Rightarrow>
          copy_files cwd dest_str dest_conn_id src sub ctx files
            (osp_copy content \<lparr>osp_path = dest_file_path, osp_conn_id = dest_conn_id\<rparr> r))"

definition upload_to_cloud_storage ::
  "settings \<Rightarrow> (string \<rightharpoonup> string) \<Rightarrow> (ObjectStoragePath \<Rightarrow> string) \<Rightarrow> string
    \<Rightarrow> (string \<Rightarrow> node option) \<Rightarrow> string \<Rightarrow> string \<Rightarrow> run_context \<Rightarrow> remote
    \<Rightarrow> error option \<times> remote" where
  "upload_to_cloud_storage st conn_map osp_str cwd fs project_dir source_subpath ctx r =
     (case configure_remote_target_path st conn_map r of
        (Inl e, r') \<Rightarrow> (Some e, r')
      | (Inr (None, dest_conn_id), r') \<Rightarrow> (Some NotConfigured, r')
      | (Inr (Some dest_target_dir, dest_conn_id), r') \<Rightarrow>
          let source_target_dir = path_div project_dir source_subpath;
              files = path_rglob_files fs source_target_dir
          in copy_files cwd (osp_str dest_target_dir) dest_conn_id source_target_dir
               source_subpath ctx files r')"

subsection \<open>Well-formed paths and names\<close>

text \<open>
  A file name is not empty, is neither \<^verbatim>\<open>"."\<close> nor \<^verbatim>\<open>".."\<close> and has no \<^verbatim>\<open>"/"\<close>.
  A path is well-formed if it is one that parsing can produce. \<open>abs_input cwd p\<close> is what
  \<^verbatim>\<open>abspath\<close> hands to \<^verbatim>\<open>normpath\<close>.
\<close>

definition valid_name :: "string \<Rightarrow> bool" where
  "valid_name n = (n \<noteq> [] \<and> n \<noteq> ''.'' \<and> n \<noteq> ''..'' \<and> CHR ''/'' \<notin> set n)"

definition wf_path :: "path \<Rightarrow> bool" where
  "wf_path p = (fst p \<in> {[], ''/'', ''//''}
                \<and> list_all (\<lambda>x. x \<noteq> [] \<and> x \<noteq> ''.'' \<and> CHR ''/'' \<notin> set x) (snd p))"

definition abs_input :: "string \<Rightarrow> string \<Rightarrow> string" where
  "abs_input cwd p = (if \<not> isabs p then posix_join cwd p else p)"

subsection \<open>The named backends\<close>

















subsection \<open>The regular files of a tree\<close>

text \<open>
  \<open>file_at t rel c\<close>: below the directory \<open>t\<close>, the relative path with the parts \<open>rel\<close>
  leads to a regular file with the content \<open>c\<close>. \<open>files_under\<close> is the set of the regular
  files below what the file system holds at a path, whatever the order of a scan.
\<close>

inductive file_at :: "node \<Rightarrow> string list \<Rightarrow> string \<Rightarrow> bool" where
  here: "(n, File c) \<in> set es \<Longrightarrow> file_at (Dir es) [n] c"
| below: "(n, t) \<in> set es \<Longrightarrow> file_at t ns c \<Longrightarrow> file_at (Dir es) (n # ns) c"

definition files_under :: "node option \<Rightarrow> (string list \<times> string) set" where
  "files_under t = (case t of None \<Rightarrow> {} | Some d \<Rightarrow> {(rel, c). file_at d rel c})"

fun wf_tree :: "node \<Rightarrow> bool" and wf_entries :: "(string \<times> node) list \<Rightarrow> bool" where
  \<comment> \<open>the entries of a directory have valid names, each name once\<close>
  "wf_tree (File c) = True"
| "wf_tree (Dir es) = (distinct (map fst es) \<and> wf_entries es)"
| "wf_entries [] = True"
| "wf_entries ((n, t) # es) = (valid_name n \<and> wf_tree t \<and> wf_entries es)"

subsection \<open>\<^verbatim>\<open>json.loads\<close>\<close>

text \<open>
  A JSON value as Python's decoder returns it. A decoded string is the list of its code
  points, since \<^verbatim>\<open>\uXXXX\<close> escapes reach beyond the characters of the text; a float is kept
  as the text that \<^verbatim>\<open>float\<close> converts (\<^verbatim>\<open>NaN\<close>, \<^verbatim>\<open>Infinity\<close> and \<^verbatim>\<open>-Infinity\<close>
  included); an object is the list of its pairs in the order of the text, and \<open>dict_get\<close>
  looks a key up as the \<^verbatim>\<open>dict\<close> made of them does, the last pair for a key winning.
  Python's limit on the length of integer literals is not modelled.
\<close>

datatype json =
    JNull
  | JBool bool
  | JInt int
  | JFloat string
  | JString "nat list"
  | JArray "json list"
  | JObject "(nat list \<times> json) list"


definition json_ws :: "char \<Rightarrow> bool" where
  "json_ws c = (c = CHR '' '' \<or> c = CHR 0x09 \<or> c = CHR 0x0A \<or> c = CHR 0x0D)"

definition skip_ws :: "string \<Rightarrow> string" where
  "skip_ws s = dropWhile json_ws s"

definition is_digit :: "char \<Rightarrow> bool" where
  "is_digit c = (c \<in> set ''0123456789'')"

definition digit_val :: "char \<Rightarrow> nat" where
  "digit_val c = of_char c - 48"

definition hex_val :: "char \<Rightarrow> nat option" where
  "hex_val c =
     (if is_digit c then Some (digit_val c)
      else if c \<in> set ''abcdef'' then Some (of_char c - 87)
      else if c \<in> set ''ABCDEF'' then Some (of_char c - 55)
      else None)"

definition decode_uXXXX :: "string \<Rightarrow> nat option" where
  \<comment> \<open>the four hexadecimal digits after \<^verbatim>\<open>\u\<close>\<close>
  "decode_uXXXX s =
     (case map hex_val (take 4 s) of
        [Some a, Some b, Some c, Some d] \<Rightarrow> Some (((a * 16 + b) * 16 + c) * 16 + d)
      | _ \<Rightarrow> None)"

definition backslash :: "char \<Rightarrow> nat option" where
  \<comment> \<open>the escapes other than \<^verbatim>\<open>\u\<close>\<close>
  "backslash c =
     (if c = CHR 0x22 then Some 0x22
      else if c = CHR 0x5C then Some 0x5C
      else if c = CHR ''/'' then Some 0x2F
      else if c = CHR ''b'' then Some 0x08
      else if c = CHR ''f'' then Some 0x0C
      else if c = CHR ''n'' then Some 0x0A
      else if c = CHR ''r'' then Some 0x0D
      else if c = CHR ''t'' then Some 0x09
      else None)"

fun scanstring :: "string \<Rightarrow> nat list \<Rightarrow> (nat list \<times> string) option" where
  \<comment> \<open>the text after an opening quote: the decoded string and what follows the closing
      quote; \<open>None\<close> for an unterminated string, a control character or a bad escape\<close>
  "scanstring [] chunks = None"
| "scanstring (c # s) chunks =
     (if c = CHR 0x22 then Some (chunks, s)
      else if c = CHR 0x5C then
        (case s of
           [] \<Rightarrow> None
         | esc # s' \<Rightarrow>
             if esc \<noteq> CHR ''u'' then
               (case backslash esc of
                  None \<Rightarrow> None
                | Some ch \<Rightarrow> scanstring s' (chunks @ [ch]))
             else
               (case decode_uXXXX s' of
                  None \<Rightarrow> None
                | Some uni \<Rightarrow>
                    if 0xD800 \<le> uni \<and> uni \<le> 0xDBFF \<and> take 2 (drop 4 s') = [CHR 0x5C, CHR ''u'']
                    then
                      (case decode_uXXXX (drop 6 s') of
                         None \<Rightarrow> None
                       | Some uni2 \<Rightarrow>
                           if 0xDC00 \<le> uni2 \<and> uni2 \<le> 0xDFFF
                           then scanstring (drop 10 s')
                                  (chunks @ [0x10000 + (uni - 0xD800) * 1024 + (uni2 - 0xDC00)])
                           else scanstring (drop 4 s') (chunks @ [uni]))
                    else scanstring (drop 4 s') (chunks @ [uni])))
      else if (of_char c :: nat) < 0x20 then None
      else scanstring s (chunks @ [of_char c]))"

definition match_number :: "string \<Rightarrow> (json \<times> string) option" where
  \<comment> \<open>\<^verbatim>\<open>(-?(?:0|[1-9][0-9]*))(\.[0-9]+)?([eE][-+]?[0-9]+)?\<close> at the start of the text\<close>
  "match_number s =
     (let sign = (if take 1 s = ''-'' then ''-'' else []);
          s1 = drop (length sign) s;
          digits = (if take 1 s1 = ''0'' then ''0'' else takeWhile is_digit s1);
          s2 = drop (length digits) s1;
          frac = (if take 1 s2 = ''.'' \<and> takeWhile is_digit (drop 1 s2) \<noteq> []
                  then ''.'' @ takeWhile is_digit (drop 1 s2) else []);
          s3 = drop (length frac) s2;
          esign = (if take 1 (drop 1 s3) = ''-'' \<or> take 1 (drop 1 s3) = ''+''
                   then take 1 (drop 1 s3) else []);
          edigits = takeWhile is_digit (drop (1 + length esign) s3);
          exp = (if (take 1 s3 = ''e'' \<or> take 1 s3 = ''E'') \<and> edigits \<noteq> []
                 then take 1 s3 @ esign @ edigits else []);
          s4 = drop (length exp) s3
      in if digits = [] then None
         else if frac \<noteq> [] \<or> exp \<noteq> [] then Some (JFloat (sign @ digits @ frac @ exp), s4)
         else Some (JInt ((if sign = [] then 1 else - 1)
                          * int (foldl (\<lambda>a d. 10 * a + digit_val d) 0 digits)), s4))"

text \<open>
  \<open>JSONDecodeError\<close> is the only error of the decoder. \<open>scan_once\<close> reads one value at
  the start of the text and returns it with the rest of the text; \<open>JSONArray\<close> and
  \<open>JSONObject\<close> are the loops over the elements of an array and the pairs of an object,
  entered after the first element or key has been found to be there. Each of Python's
  \<^verbatim>\<open>while True\<close> loops goes on with the text that the value read has left; the test that
  this text is shorter is what makes the recursion well-founded, and
  \<open>scan_once_consumes\<close> below shows that it never fails.
\<close>

datatype decode_error = JSONDecodeError

lemma length_skip_ws: "length (skip_ws s) \<le> length s"
  by (simp add: skip_ws_def length_dropWhile_le)

lemma skip_ws_Cons_length: "skip_ws s = d # r \<Longrightarrow> length r < length s"
  using length_skip_ws [of s] by simp

function (sequential) scan_once :: "string \<Rightarrow> decode_error + (json \<times> string)"
  and JSONArray :: "string \<Rightarrow> json list \<Rightarrow> decode_error + (json \<times> string)"
  and JSONObject :: "string \<Rightarrow> (nat list \<times> json) list \<Rightarrow> decode_error + (json \<times> string)"
where
  "scan_once [] = Inl JSONDecodeError"
| "scan_once (nextchar # s) =
     (if nextchar = CHR 0x22 then
        (case scanstring s [] of
           None \<Rightarrow> Inl JSONDecodeError
         | Some (v, rest) \<Rightarrow> Inr (JString v, rest))
      else if nextchar = CHR ''{'' then
        (case skip_ws s of
           [] \<Rightarrow> Inl JSONDecodeError
         | d # r \<Rightarrow>
             if d = CHR ''}'' then Inr (JObject [], r)
             else if d = CHR 0x22 then JSONObject r []
             else Inl JSONDecodeError)
      else if nextchar = CHR ''['' then
        (case skip_ws s of
           [] \<Rightarrow> Inl JSONDecodeError
         | d # r \<Rightarrow>
             if d = CHR '']'' then Inr (JArray [], r)
             else JSONArray (d # r) [])
      else if nextchar = CHR ''n'' \<and> take 3 s = ''ull'' then Inr (JNull, drop 3 s)
      else if nextchar = CHR ''t'' \<and> take 3 s = ''rue'' then Inr (JBool True, drop 3 s)
      else if nextchar = CHR ''f'' \<and> take 4 s = ''alse'' then Inr (JBool False, drop 4 s)
      else
        (case match_number (nextchar # s) of
           Some (v, rest) \<Rightarrow> Inr (v, rest)
         | None \<Rightarrow>
             if nextchar = CHR ''N'' \<and> take 2 s = ''aN'' then Inr (JFloat ''NaN'', drop 2 s)
             else if nextchar = CHR ''I'' \<and> take 7 s = ''nfinity''
               then Inr (JFloat ''Infinity'', drop 7 s)
             else if nextchar = CHR ''-'' \<and> take 8 s = ''Infinity''
               then Inr (JFloat ''-Infinity'', drop 8 s)
             else Inl JSONDecodeError))"
| "JSONArray s values =
     (case scan_once s of
        Inl e \<Rightarrow> Inl e
      | Inr (v, rest) \<Rightarrow>
          if length rest < length s then
            (case skip_ws rest of
               [] \<Rightarrow> Inl JSONDecodeError
             | d # r \<Rightarrow>
                 if d = CHR '']'' then Inr (JArray (values @ [v]), r)
                 else if d = CHR '','' then JSONArray (skip_ws r) (values @ [v])
                 else Inl JSONDecodeError)
          else Inl JSONDecodeError)"
| "JSONObject s pairs =
     (case scanstring s [] of
        None \<Rightarrow> Inl JSONDecodeError
      | Some (key, s1) \<Rightarrow>
          (case skip_ws s1 of
             [] \<Rightarrow> Inl JSONDecodeError
           | c # s2 \<Rightarrow>
               if c \<noteq> CHR '':'' then Inl JSONDecodeError
               else if length s2 < length s then
                 (case scan_once (skip_ws s2) of
                    Inl e \<Rightarrow> Inl e
                  | Inr (v, rest) \<Rightarrow>
                      if length rest < length s then
                        (case skip_ws rest of
                           [] \<Rightarrow> Inl JSONDecodeError
                         | d # r \<Rightarrow>
                             if d = CHR ''}'' then Inr (JObject (pairs @ [(key, v)]), r)
                             else if d = CHR '','' then
                               (case skip_ws r of
                                  [] \<Rightarrow> Inl JSONDecodeError
                                | q # r' \<Rightarrow>
                                    if q = CHR 0x22 then JSONObject r' (pairs @ [(key, v)])
                                    else Inl JSONDecodeError)
                             else Inl JSONDecodeError)
                      else Inl JSONDecodeError)
               else Inl JSONDecodeError))"
  by pat_completeness auto

termination scan_once
proof (relation
    "measures [\<lambda>x. case x of Inl s \<Rightarrow> length s | Inr (Inl (s, _)) \<Rightarrow> length s
                              | Inr (Inr (s, _)) \<Rightarrow> length s,
               \<lambda>x. case x of Inl _ \<Rightarrow> 0 | Inr _ \<Rightarrow> 1]", goal_cases)
  case 1
  show ?case by simp
next
  case (2 nextchar s d r)
  then show ?case using skip_ws_Cons_length [of s d r] by simp
next
  case (3 nextchar s d r)
  then show ?case using skip_ws_Cons_length [of s d r] by simp
next
  case (4 s "values")
  show ?case by simp
next
  case (5 s "values" x v rest d r)
  then show ?case
    using skip_ws_Cons_length [of rest d r] length_skip_ws [of r] by simp
next
  case (6 s pairs x key s1 c s2)
  then show ?case using length_skip_ws [of s2] by simp
next
  case (7 s pairs x key s1 c s2 y v rest d r q r')
  then show ?case
    using skip_ws_Cons_length [of rest d r] skip_ws_Cons_length [of r q r'] by simp
qed


subsection \<open>\<^verbatim>\<open>_extract_show_list\<close> and \<^verbatim>\<open>log_to_xcom\<close>\<close>









subsection \<open>Example data\<close>

text \<open>
  Concrete settings, stores and trees at which the theorems below are instantiated.
\<close>

definition empty_remote :: remote where
  "empty_remote = \<lparr>dirs = {}, objects = Map.empty\<rparr>"

definition example_conn_map :: "string \<rightharpoonup> string" where
  \<comment> \<open>Modelled from the spec: \<^verbatim>\<open>FILE_SCHEME_AIRFLOW_DEFAULT_CONN_ID_MAP\<close> of
      \<^verbatim>\<open>cosmos.constants\<close>, which is not among the sources; the entries are those the
      specification names (\<^verbatim>\<open>s3\<close>, \<^verbatim>\<open>gs\<close>, \<^verbatim>\<open>abfs\<close>)\<close>
  "example_conn_map =
     [''s3'' \<mapsto> ''aws_default'', ''gs'' \<mapsto> ''google_cloud_default'', ''abfs'' \<mapsto> ''wasb_default'']"

definition settings_no_root :: settings where
  "settings_no_root =
     \<lparr>remote_target_path = None, remote_target_path_conn_id = Some ''my_conn'',
      AIRFLOW_IO_AVAILABLE = False\<rparr>"


definition settings_s3 :: "bool \<Rightarrow> settings" where
  "settings_s3 io =
     \<lparr>remote_target_path = Some ''s3://bucket'', remote_target_path_conn_id = None,
      AIRFLOW_IO_AVAILABLE = io\<rparr>"

definition example_context :: run_context where
  "example_context =
     \<lparr>dag_id = ''d1'', run_id = ''r1'', task_id = ''t1'', try_number = 2,
      priv_try_number = Some 1\<rparr>"

definition example_tree :: node where
  "example_tree =
     Dir [(''run'', Dir [(''results.json'', File ''{}'')]),
          (''compiled'', Dir [(''q.sql'', File ''select 1'')])]"

definition example_fs :: "string \<Rightarrow> node option" where
  "example_fs p = (if p = ''p/target'' \<or> p = ''/proj/target'' then Some example_tree else None)"

definition example_remote :: remote where
  "example_remote =
     \<lparr>dirs = {''s3://bucket''},
      objects = [''s3://bucket/d1/r1/t1/2/target/run/results.json'' \<mapsto> ''{}'',
                 ''s3://bucket/d1/r1/t1/2/target/compiled/q.sql'' \<mapsto> ''select 1'']\<rparr>"




section \<open>Properties\<close>

subsection \<open>Strings and paths\<close>

lemma split_chr_nonempty [simp]: "split_chr c s \<noteq> []"
  by (induction s) (auto split: list.splits)

lemma split_chr_append: "split_chr c (a @ c # b) = split_chr c a @ split_chr c b"
  by (induction a) (auto split: list.splits)

lemma split_chr_no_sep: "c \<notin> set s \<Longrightarrow> split_chr c s = [s]"
  by (induction s) auto

lemma split_chr_elems: "x \<in> set (split_chr c s) \<Longrightarrow> c \<notin> set x"
  by (induction s arbitrary: x) (auto split: if_splits list.splits)

lemma split_chr_join:
  "xs \<noteq> [] \<Longrightarrow> \<forall>x \<in> set xs. c \<notin> set x \<Longrightarrow> split_chr c (join [c] xs) = xs"
proof (induction "[c]" xs rule: join.induct)
  case 1 then show ?case by simp
next
  case (2 x) then show ?case by (simp add: split_chr_no_sep)
next
  case (3 x y ys)
  then show ?case using split_chr_append[of c x "join [c] (y # ys)"]
    by (simp add: split_chr_no_sep)
qed

lemma join_Cons: "xs \<noteq> [] \<Longrightarrow> join sep (x # xs) = x @ sep @ join sep xs"
  by (cases xs) auto

lemma join_append:
  "xs \<noteq> [] \<Longrightarrow> ys \<noteq> [] \<Longrightarrow> join sep (xs @ ys) = join sep xs @ sep @ join sep ys"
  by (induction sep xs rule: join.induct) (auto simp: join_Cons)

lemma join_hd: "xs \<noteq> [] \<Longrightarrow> hd xs \<noteq> [] \<Longrightarrow> join sep xs \<noteq> [] \<and> hd (join sep xs) = hd (hd xs)"
  by (induction sep xs rule: join.induct) auto

lemma join_valid_inj:
  assumes "rel \<noteq> []" "rel' \<noteq> []" "list_all valid_name rel" "list_all valid_name rel'"
    and "join ''/'' rel = join ''/'' rel'"
  shows "rel = rel'"
proof -
  from assms(3) have "\<forall>x \<in> set rel. CHR ''/'' \<notin> set x" by (auto simp: list_all_iff valid_name_def)
  from split_chr_join [OF assms(1) this] have a: "split_chr CHR ''/'' (join ''/'' rel) = rel" by simp
  from assms(4) have "\<forall>x \<in> set rel'. CHR ''/'' \<notin> set x" by (auto simp: list_all_iff valid_name_def)
  from split_chr_join [OF assms(2) this] have "split_chr CHR ''/'' (join ''/'' rel') = rel'" by simp
  with a assms(5) show ?thesis by simp
qed

text \<open>The loop of \<^verbatim>\<open>normpath\<close>: valid names are appended, empty parts are skipped.\<close>

lemma normpath_comps_append:
  "normpath_comps b acc (xs @ ys) = normpath_comps b (normpath_comps b acc xs) ys"
  by (induction xs arbitrary: acc) auto

lemma normpath_comps_valid:
  "\<forall>n \<in> set rel. valid_name n \<Longrightarrow> normpath_comps b acc rel = acc @ rel"
  by (induction rel arbitrary: acc) (auto simp: valid_name_def)

lemma normpath_comps_empties:
  "normpath_comps b acc (replicate k [] @ ys) = normpath_comps b acc ys"
  by (induction k) auto

lemma normpath_comps_elems:
  "x \<in> set (normpath_comps b acc xs) \<Longrightarrow> x \<in> set acc \<or> (x \<in> set xs \<and> x \<noteq> [])"
proof (induction xs arbitrary: acc)
  case Nil then show ?case by simp
next
  case (Cons a xs)
  show ?case
  proof (cases "a = [] \<or> a = ''.''")
    case True
    with Cons.prems have "x \<in> set (normpath_comps b acc xs)" by auto
    from Cons.IH [OF this] show ?thesis by auto
  next
    case skip: False
    show ?thesis
    proof (cases "a \<noteq> ''..'' \<or> (\<not> b \<and> acc = []) \<or> (acc \<noteq> [] \<and> last acc = ''..'')")
      case True
      with skip Cons.prems have "x \<in> set (normpath_comps b (acc @ [a]) xs)" by simp
      from Cons.IH [OF this] skip show ?thesis by auto
    next
      case False
      with skip Cons.prems have "x \<in> set (normpath_comps b (butlast acc) xs)
          \<or> x \<in> set (normpath_comps b acc xs)"
        by (auto split: if_splits)
      then show ?thesis
      proof
        assume "x \<in> set (normpath_comps b (butlast acc) xs)"
        from Cons.IH [OF this] show ?thesis by (auto dest: in_set_butlastD)
      next
        assume "x \<in> set (normpath_comps b acc xs)"
        from Cons.IH [OF this] show ?thesis by auto
      qed
    qed
  qed
qed

text \<open>The parts that \<^verbatim>\<open>relpath\<close> computes for an absolute path.\<close>

lemma lstrip_replicate: "lstrip c (replicate k c @ s) = lstrip c s"
  by (induction k) (auto simp: lstrip_def)

lemma lstrip_id: "s = [] \<or> hd s \<noteq> c \<Longrightarrow> lstrip c s = s"
  by (cases s) (auto simp: lstrip_def)

lemma abs_comps_props:
  assumes "x \<in> set (normpath_comps b [] (split_chr CHR ''/'' q))"
  shows "x \<noteq> [] \<and> CHR ''/'' \<notin> set x"
  using normpath_comps_elems [OF assms] split_chr_elems [of x "CHR ''/''" q] by auto

lemma path_list_abs:
  assumes "isabs q"
  shows "(let t = lstrip CHR ''/'' (normpath q) in if t \<noteq> [] then split_chr CHR ''/'' t else [])
         = normpath_comps True [] (split_chr CHR ''/'' q)"
proof -
  let ?cs = "normpath_comps True [] (split_chr CHR ''/'' q)"
  from assms have q: "q \<noteq> []" "startswith q ''/''" by (auto simp: isabs_def startswith_def)
  define k :: nat where "k = (if startswith q ''//'' \<and> \<not> startswith q ''///'' then 2 else 1)"
  have k: "normpath q = replicate k CHR ''/'' @ join ''/'' ?cs"
    using q by (simp add: normpath_def Let_def k_def)
  have t: "lstrip CHR ''/'' (normpath q) = join ''/'' ?cs"
  proof (cases "?cs = []")
    case True then show ?thesis by (simp add: k lstrip_replicate lstrip_def)
  next
    case False
    then have "hd ?cs \<in> set ?cs" by simp
    from abs_comps_props [OF this] have "hd ?cs \<noteq> []" "CHR ''/'' \<notin> set (hd ?cs)" by auto
    then have "hd (hd ?cs) \<noteq> CHR ''/''" by (metis hd_in_set)
    with \<open>hd ?cs \<noteq> []\<close> have "join ''/'' ?cs \<noteq> []" "hd (join ''/'' ?cs) \<noteq> CHR ''/''"
      using join_hd [OF False, of "''/''"] by auto
    then show ?thesis by (simp add: k lstrip_replicate lstrip_id)
  qed
  show ?thesis
  proof (cases "?cs = []")
    case True then show ?thesis by (simp add: t)
  next
    case False
    then have "hd ?cs \<in> set ?cs" by simp
    from abs_comps_props [OF this] join_hd [OF False, of "''/''"] have ne: "join ''/'' ?cs \<noteq> []" by auto
    have "split_chr CHR ''/'' (join ''/'' ?cs) = ?cs"
      using split_chr_join [OF False, of "CHR ''/''"] abs_comps_props by blast
    with ne show ?thesis by (simp add: t)
  qed
qed

text \<open>\<^verbatim>\<open>relpath\<close> of a path below the start directory.\<close>

lemma commonprefix_append: "commonprefix xs (xs @ ys) = xs"
  by (induction xs) auto

lemma relpath_below:
  assumes "isabs (abs_input cwd start)" "isabs (abs_input cwd path)" "path \<noteq> []"
    and below: "normpath_comps True [] (split_chr CHR ''/'' (abs_input cwd path))
               = normpath_comps True [] (split_chr CHR ''/'' (abs_input cwd start)) @ rel"
    and rel: "rel \<noteq> []"
  shows "relpath cwd path start = Inr (join ''/'' rel)"
proof -
  let ?X = "normpath_comps True [] (split_chr CHR ''/'' (abs_input cwd start))"
  have a: "abspath cwd p = normpath (abs_input cwd p)" for p
    by (simp add: abspath_def abs_input_def)
  have s: "(let t = lstrip CHR ''/'' (abspath cwd start) in if t \<noteq> [] then split_chr CHR ''/'' t else []) = ?X"
    using path_list_abs [OF assms(1)] by (simp only: a)
  have f: "(let t = lstrip CHR ''/'' (abspath cwd path) in if t \<noteq> [] then split_chr CHR ''/'' t else []) = ?X @ rel"
    using path_list_abs [OF assms(2)] by (simp only: a below)
  show ?thesis
    using s f rel assms(3) by (simp add: relpath_def Let_def commonprefix_append)
qed

text \<open>Paths as \<^verbatim>\<open>pathlib\<close> prints them.\<close>

lemma split_chr_replicate:
  "split_chr c (replicate k c @ s) = replicate k [] @ split_chr c s"
  by (induction k) auto

lemma norm_split_join:
  assumes "\<forall>x \<in> set xs. CHR ''/'' \<notin> set x"
  shows "normpath_comps b acc (split_chr CHR ''/'' (join ''/'' xs)) = normpath_comps b acc xs"
proof (cases "xs = []")
  case True then show ?thesis by simp
next
  case False
  with assms split_chr_join [of xs "CHR ''/''"] show ?thesis by simp
qed

lemma wf_path_root: "wf_path p \<Longrightarrow> \<exists>k. fst p = replicate k CHR ''/''"
proof -
  assume "wf_path p"
  then consider "fst p = replicate 0 CHR ''/''" | "fst p = replicate 1 CHR ''/''"
    | "fst p = replicate 2 CHR ''/''"
    by (auto simp: wf_path_def numeral_2_eq_2)
  then show ?thesis by cases blast+
qed

lemma norm_split_path_str:
  assumes "wf_path p"
  shows "normpath_comps b acc (split_chr CHR ''/'' (path_str p)) = normpath_comps b acc (snd p)"
proof -
  from wf_path_root [OF assms] obtain k where k: "fst p = replicate k CHR ''/''" by blast
  from assms have ns: "\<forall>x \<in> set (snd p). CHR ''/'' \<notin> set x"
    by (auto simp: wf_path_def list_all_iff)
  show ?thesis
  proof (cases "fst p @ join ''/'' (snd p) = []")
    case True
    then have "join ''/'' (snd p) = []" by simp
    with norm_split_join [OF ns, of b acc] have "normpath_comps b acc (snd p) = acc" by simp
    with True show ?thesis by (simp add: path_str_def)
  next
    case False
    then have "path_str p = replicate k CHR ''/'' @ join ''/'' (snd p)"
      by (simp add: path_str_def k)
    then show ?thesis
      using norm_split_join [OF ns]
      by (simp add: split_chr_replicate normpath_comps_empties)
  qed
qed

lemma path_str_nonempty: "path_str p \<noteq> []"
  by (simp add: path_str_def Let_def)

lemma path_str_isabs: "wf_path p \<Longrightarrow> isabs (path_str p) \<longleftrightarrow> fst p \<noteq> []"
proof -
  assume wf: "wf_path p"
  show ?thesis
  proof (cases "fst p = []")
    case False
    with wf have "fst p = ''/'' \<or> fst p = ''//''" by (auto simp: wf_path_def)
    then show ?thesis using False
      by (auto simp: path_str_def isabs_def startswith_def)
  next
    case True
    show ?thesis
    proof (cases "snd p = []")
      case True
      with \<open>fst p = []\<close> show ?thesis by (simp add: path_str_def isabs_def startswith_def)
    next
      case False
      with wf have "hd (snd p) \<noteq> []" "CHR ''/'' \<notin> set (hd (snd p))"
        by (auto simp: wf_path_def list_all_iff)
      then have "hd (hd (snd p)) \<noteq> CHR ''/''" by (metis hd_in_set)
      with join_hd [OF False \<open>hd (snd p) \<noteq> []\<close>, of "''/''"] True
      show ?thesis
        by (cases "join ''/'' (snd p)") (auto simp: path_str_def isabs_def startswith_def)
    qed
  qed
qed

lemma split_posix_join:
  assumes "isabs cwd"
  shows "\<exists>cs. \<forall>s. \<not> isabs s \<longrightarrow> split_chr CHR ''/'' (posix_join cwd s) = cs @ split_chr CHR ''/'' s"
proof (cases "endswith cwd ''/''")
  case True
  then have "cwd = butlast cwd @ ''/''"
    by (cases cwd rule: rev_cases) (auto simp: endswith_def)
  then have "\<forall>s. \<not> isabs s \<longrightarrow> split_chr CHR ''/'' (posix_join cwd s)
      = split_chr CHR ''/'' (butlast cwd) @ split_chr CHR ''/'' s"
    using True split_chr_append [of "CHR ''/''" "butlast cwd"]
    by (auto simp: posix_join_def isabs_def) (metis append.assoc append_Cons append_Nil)
  then show ?thesis by blast
next
  case False
  with assms have "\<forall>s. \<not> isabs s \<longrightarrow> split_chr CHR ''/'' (posix_join cwd s)
      = split_chr CHR ''/'' cwd @ split_chr CHR ''/'' s"
    using split_chr_append [of "CHR ''/''" cwd]
    by (auto simp: posix_join_def isabs_def startswith_def)
  then show ?thesis by blast
qed

lemma isabs_posix_join: "isabs cwd \<Longrightarrow> isabs (posix_join cwd s)"
  by (cases cwd) (auto simp: posix_join_def isabs_def startswith_def)

lemma isabs_abs_input: "isabs cwd \<Longrightarrow> isabs (abs_input cwd s)"
  by (simp add: abs_input_def isabs_posix_join)

lemma norm_abs_input_path:
  assumes "isabs cwd" "fst p \<in> {[], ''/'', ''//''}"
  shows "\<exists>acc. \<forall>tl. wf_path (fst p, tl) \<longrightarrow>
            normpath_comps True [] (split_chr CHR ''/'' (abs_input cwd (path_str (fst p, tl))))
            = normpath_comps True acc tl"
proof (cases "fst p = []")
  case False
  have "\<forall>tl. wf_path (fst p, tl) \<longrightarrow>
            normpath_comps True [] (split_chr CHR ''/'' (abs_input cwd (path_str (fst p, tl))))
            = normpath_comps True [] tl"
    using False by (auto simp: abs_input_def path_str_isabs norm_split_path_str)
  then show ?thesis by blast
next
  case True
  from split_posix_join [OF assms(1)] obtain cs where
    cs: "\<And>s. \<not> isabs s \<Longrightarrow> split_chr CHR ''/'' (posix_join cwd s) = cs @ split_chr CHR ''/'' s"
    by blast
  have "\<forall>tl. wf_path (fst p, tl) \<longrightarrow>
            normpath_comps True [] (split_chr CHR ''/'' (abs_input cwd (path_str (fst p, tl))))
            = normpath_comps True (normpath_comps True [] cs) tl"
    using True
    by (auto simp: abs_input_def path_str_isabs cs normpath_comps_append norm_split_path_str)
  then show ?thesis by blast
qed

lemma wf_path_child:
  "wf_path p \<Longrightarrow> list_all valid_name rel \<Longrightarrow> wf_path (path_child p rel)"
  by (auto simp: wf_path_def path_child_def valid_name_def list_all_iff)

lemma relpath_path_child:
  assumes "isabs cwd" "wf_path p" "rel \<noteq> []" "list_all valid_name rel"
  shows "relpath cwd (path_str (path_child p rel)) (path_str p) = Inr (join ''/'' rel)"
proof -
  from assms(2) have root: "fst p \<in> {[], ''/'', ''//''}" by (simp add: wf_path_def)
  from norm_abs_input_path [OF assms(1) root] obtain acc where
    acc: "\<And>tl. wf_path (fst p, tl) \<Longrightarrow>
            normpath_comps True [] (split_chr CHR ''/'' (abs_input cwd (path_str (fst p, tl))))
            = normpath_comps True acc tl"
    by blast
  have c: "wf_path (fst p, snd p @ rel)"
    using wf_path_child [OF assms(2,4)] by (simp add: path_child_def)
  have "normpath_comps True [] (split_chr CHR ''/'' (abs_input cwd (path_str (path_child p rel))))
        = normpath_comps True acc (snd p @ rel)"
    using acc [OF c] by (simp add: path_child_def)
  also have "\<dots> = normpath_comps True acc (snd p) @ rel"
    using assms(4) by (simp add: normpath_comps_append normpath_comps_valid list_all_iff)
  also have "normpath_comps True acc (snd p)
        = normpath_comps True [] (split_chr CHR ''/'' (abs_input cwd (path_str p)))"
    using acc [of "snd p"] assms(2) by simp
  finally show ?thesis
    using relpath_below [OF isabs_abs_input [OF assms(1)] isabs_abs_input [OF assms(1)]
        path_str_nonempty _ assms(3)]
    by blast
qed

lemma splitroot_root: "fst (splitroot p) \<in> {[], ''/'', ''//''}"
proof (cases p)
  case Nil then show ?thesis by (simp add: splitroot_def)
next
  case (Cons a q)
  show ?thesis
  proof (cases q)
    case Nil with Cons show ?thesis by (simp add: splitroot_def)
  next
    case (Cons b q')
    with \<open>p = a # q\<close> show ?thesis by (auto simp: splitroot_def)
  qed
qed

lemma parse_path_wf: "wf_path (parse_path p)"
  using splitroot_root [of p]
  by (auto simp: parse_path_def wf_path_def list_all_iff dest: split_chr_elems)

lemma path_div_wf: "wf_path (path_div a b)"
  by (simp add: path_div_def parse_path_wf)

subsection \<open>The destination path\<close>

lemma construct_dest_file_path_child:
  assumes "isabs cwd" "wf_path src" "rel \<noteq> []" "list_all valid_name rel"
  shows "construct_dest_file_path cwd root (path_str (path_child src rel)) src sub ctx
         = Inr (dest_key root sub ctx rel)"
proof -
  from assms(3,4) have "hd rel \<noteq> []" "CHR ''/'' \<notin> set (hd rel)"
    by (auto simp: list_all_iff valid_name_def)
  then have "hd (hd rel) \<noteq> CHR ''/''" by (metis hd_in_set)
  with join_hd [OF assms(3) \<open>hd rel \<noteq> []\<close>, of "''/''"]
  have "lstrip CHR ''/'' (join ''/'' rel) = join ''/'' rel"
    by (simp add: lstrip_id)
  then show ?thesis
    by (simp add: construct_dest_file_path_def relpath_path_child [OF assms] dest_key_def)
qed

lemma dest_key_inj:
  assumes "rel \<noteq> []" "rel' \<noteq> []" "list_all valid_name rel" "list_all valid_name rel'"
    and "dest_key root sub ctx rel = dest_key root sub ctx rel'"
  shows "rel = rel'"
  using assms(5) join_valid_inj [OF assms(1-4)] by (simp add: dest_key_def)

text \<open>
  Claim C1. For every root, execution context, source subpath and every file below the
  source directory (the path that \<^verbatim>\<open>pathlib\<close> makes from the directory and the file's
  relative parts \<open>rel\<close>), the destination path is the root without its trailing slashes,
  the dag id, the run id, the task id, the attempt number, the source subpath and the
  file's relative path, joined by \<^verbatim>\<open>"/"\<close> in this order.
\<close>

theorem dest_file_path_layout:
  assumes "isabs cwd" "wf_path source_target_dir" "rel \<noteq> []" "list_all valid_name rel"
  shows "construct_dest_file_path cwd root (path_str (path_child source_target_dir rel))
           source_target_dir source_subpath ctx
         = Inr (join ''/'' [rstrip CHR ''/'' root, dag_id ctx, run_id ctx, task_id ctx,
                            str_int (try_number ctx), source_subpath, join ''/'' rel])"
proof -
  from assms(3,4) have "hd rel \<noteq> []" "CHR ''/'' \<notin> set (hd rel)"
    by (auto simp: list_all_iff valid_name_def)
  then have "hd (hd rel) \<noteq> CHR ''/''" by (metis hd_in_set)
  with join_hd [OF assms(3) \<open>hd rel \<noteq> []\<close>, of "''/''"]
  have "lstrip CHR ''/'' (join ''/'' rel) = join ''/'' rel"
    by (simp add: lstrip_id)
  then show ?thesis
    by (simp add: construct_dest_file_path_def relpath_path_child [OF assms])
qed

theorem dest_file_path_layout_witness:
  "construct_dest_file_path ''/cwd'' ''store://bucket'' ''p/target/run/results.json''
     (path_div ''p'' ''target'') ''target'' example_context
   = Inr ''store://bucket/d1/r1/t1/2/target/run/results.json''"
proof -
  have p: "path_div ''p'' ''target'' = ([], [''p'', ''target''])"
    by code_simp
  have s: "str_int 2 = ''2''"
    by code_simp
  have v: "list_all valid_name [''run'', ''results.json'']"
    by (simp add: valid_name_def)
  show ?thesis
    using dest_file_path_layout [where cwd = "''/cwd''" and root = "''store://bucket''"
        and source_target_dir = "path_div ''p'' ''target''" and rel = "[''run'', ''results.json'']"
        and source_subpath = "''target''" and ctx = example_context, OF _ path_div_wf _ v]
    by (simp add: p s isabs_def startswith_def path_str_def path_child_def rstrip_def
        example_context_def)
qed

subsection \<open>The remote-target resolver\<close>

lemma configure_cases:
  "configure_remote_target_path st conn_map r =
     (if falsy (remote_target_path st) then (Inr (None, None), r)
      else if falsy (remote_target_path_conn_id st)
              \<and> conn_map (urlparse_scheme (the (remote_target_path st))) = None
        then (Inr (None, None), r)
      else if \<not> AIRFLOW_IO_AVAILABLE st then (Inl CapabilityUnavailable, r)
      else (let p = \<lparr>osp_path = the (remote_target_path st),
                      osp_conn_id = (if falsy (remote_target_path_conn_id st)
                                     then conn_map (urlparse_scheme (the (remote_target_path st)))
                                     else remote_target_path_conn_id st)\<rparr>
            in (Inr (Some p, osp_conn_id p), if osp_exists p r then r else osp_mkdir p r)))"
  by (auto simp: configure_remote_target_path_def falsy_def Let_def split: option.splits)


lemma scheme_s3: "urlparse_scheme ''s3://bucket'' = ''s3''"
  by code_simp

lemma configure_success:
  assumes "configure_remote_target_path st conn_map r = (Inr (Some dest, conn), r1)"
  shows "objects r1 = objects r"
    and "osp_exists dest r1"
    and "r1 = (if osp_exists dest r then r else osp_mkdir dest r)"
    and "osp_exists dest r2 \<Longrightarrow> configure_remote_target_path st conn_map r2 = (Inr (Some dest, conn), r2)"
  using assms
  by (auto simp: configure_cases Let_def osp_mkdir_def osp_exists_def split: if_splits)





text \<open>
  Claim C10. Whatever the configuration, a result of the resolver is all or nothing: both
  the root and the connection id are \<^verbatim>\<open>None\<close>, or neither is.
\<close>

theorem resolver_all_or_nothing:
  "fst (configure_remote_target_path st conn_map r) = Inr (root, conn_id)
     \<Longrightarrow> (root = None \<and> conn_id = None) \<or> (root \<noteq> None \<and> conn_id \<noteq> None)"
  by (auto simp: configure_cases falsy_def Let_def split: option.splits if_splits)

theorem resolver_all_or_nothing_witness:
  "fst (configure_remote_target_path (settings_s3 True) example_conn_map empty_remote)
     = Inr (Some \<lparr>osp_path = ''s3://bucket'', osp_conn_id = Some ''aws_default''\<rparr>,
            Some ''aws_default'')
   \<and> fst (configure_remote_target_path settings_no_root example_conn_map empty_remote)
     = Inr (None, None)"
proof -
  have a: "fst (configure_remote_target_path (settings_s3 True) example_conn_map empty_remote)
     = Inr (Some \<lparr>osp_path = ''s3://bucket'', osp_conn_id = Some ''aws_default''\<rparr>,
            Some ''aws_default'')"
    by (simp add: configure_cases falsy_def scheme_s3 settings_s3_def example_conn_map_def
        Let_def)
  have b: "fst (configure_remote_target_path settings_no_root example_conn_map empty_remote)
     = Inr (None, None)"
    by (simp add: configure_cases falsy_def settings_no_root_def)
  from resolver_all_or_nothing [OF a] resolver_all_or_nothing [OF b] a b
  show ?thesis by simp
qed

subsection \<open>The regular files of a tree\<close>

lemma regular_files_set: "set (regular_files xs) = {(rel, c). (rel, File c) \<in> set xs}"
  by (induction xs rule: regular_files.induct) auto

lemma file_at_File [simp]: "\<not> file_at (File c') rel c"
  by (auto elim: file_at.cases)

lemma file_at_Nil [simp]: "\<not> file_at t [] c"
  by (auto elim: file_at.cases)

lemma file_at_Dir:
  "file_at (Dir es) rel c \<longleftrightarrow>
     (\<exists>n. rel = [n] \<and> (n, File c) \<in> set es)
     \<or> (\<exists>n t ns. rel = n # ns \<and> (n, t) \<in> set es \<and> file_at t ns c)"
  by (auto elim: file_at.cases intro: file_at.intros)

lemma rglob_files:
  "(rel', File c) \<in> set (rglob pre t) \<longleftrightarrow> (\<exists>rel. rel' = pre @ rel \<and> file_at t rel c)"
  "(rel', File c) \<in> set (rglob_dirs pre es) \<longleftrightarrow>
     (\<exists>n t ns. (n, t) \<in> set es \<and> rel' = pre @ n # ns \<and> file_at t ns c)"
proof (induction pre t and pre es arbitrary: rel' and rel' rule: rglob_rglob_dirs.induct)
  case (1 pre c')
  show ?case by simp
next
  case (2 pre es)
  have "(rel', File c) \<in> set (map (\<lambda>(n, c). (pre @ [n], c)) es)
        \<longleftrightarrow> (\<exists>n. rel' = pre @ [n] \<and> (n, File c) \<in> set es)"
    by auto
  then show ?case using 2 [of rel'] by (auto simp: file_at_Dir)
next
  case (3 pre)
  show ?case by simp
next
  case (4 pre n t es)
  show ?case using 4(1) [of rel'] 4(2) [of rel'] by auto
qed

lemma path_rglob_files_set:
  "set (path_rglob_files fs p)
   = {(path_str (path_child p rel), c) | rel c. (rel, c) \<in> files_under (fs (path_str p))}"
proof (cases "fs (path_str p)")
  case None
  then show ?thesis by (simp add: path_rglob_files_def files_under_def)
next
  case (Some t)
  have "set (regular_files (rglob [] t)) = {(rel, c). file_at t rel c}"
    using rglob_files(1) [of _ _ "[]" t] by (auto simp: regular_files_set)
  with Some show ?thesis
    by (auto simp: path_rglob_files_def files_under_def image_iff)
qed

lemma wf_entries_mem: "wf_entries es \<Longrightarrow> (n, t) \<in> set es \<Longrightarrow> valid_name n \<and> wf_tree t"
  by (induction es) auto

lemma file_at_wf: "file_at t rel c \<Longrightarrow> wf_tree t \<Longrightarrow> rel \<noteq> [] \<and> list_all valid_name rel"
proof (induction rule: file_at.induct)
  case (here n c es)
  then show ?case using wf_entries_mem [of es n "File c"] by simp
next
  case (below n t es ns c)
  then show ?case using wf_entries_mem [of es n t] by simp
qed

lemma file_at_functional:
  "file_at t rel c \<Longrightarrow> wf_tree t \<Longrightarrow> file_at t rel c' \<Longrightarrow> c = c'"
proof (induction arbitrary: c' rule: file_at.induct)
  case (here n c es)
  from here.prems(1) have d: "distinct (map fst es)" by simp
  from here.prems(2) have "(n, File c') \<in> set es"
    by (auto simp: file_at_Dir)
  with here.hyps d have "File c = File c'" by (metis eq_key_imp_eq_value)
  then show ?case by simp
next
  case (below n t es ns c)
  from below.prems(1) have d: "distinct (map fst es)" and w: "wf_entries es" by simp_all
  from below.hyps(2) have "ns \<noteq> []" by auto
  with below.prems(2) obtain t' where t': "(n, t') \<in> set es" "file_at t' ns c'"
    by (auto simp: file_at_Dir)
  with below.hyps(1) d have "t' = t" by (metis eq_key_imp_eq_value)
  with below.IH [of c'] t' wf_entries_mem [OF w below.hyps(1)] show ?case by simp
qed

lemma files_under_wf:
  assumes "\<And>t. fs p = Some t \<Longrightarrow> wf_tree t" "(rel, c) \<in> files_under (fs p)"
  shows "rel \<noteq> [] \<and> list_all valid_name rel"
    and "(rel, c') \<in> files_under (fs p) \<Longrightarrow> c = c'"
proof -
  from assms(2) obtain t where t: "fs p = Some t" "file_at t rel c"
    by (cases "fs p") (auto simp: files_under_def)
  from file_at_wf [OF t(2) assms(1) [OF t(1)]] show "rel \<noteq> [] \<and> list_all valid_name rel" .
  assume "(rel, c') \<in> files_under (fs p)"
  with t have "file_at t rel c'" by (simp add: files_under_def)
  from file_at_functional [OF t(2) assms(1) [OF t(1)] this] show "c = c'" .
qed

subsection \<open>The generic publisher\<close>



lemma copy_files_values:
  assumes "copy_files cwd d conn src sub ctx files r = (None, r')"
  shows "\<exists>M. dom M = {k. \<exists>(f, c) \<in> set files. construct_dest_file_path cwd d f src sub ctx = Inr k}
           \<and> (\<forall>k c. M k = Some c
                 \<longrightarrow> (\<exists>f. (f, c) \<in> set files \<and> construct_dest_file_path cwd d f src sub ctx = Inr k))
           \<and> r' = r\<lparr>objects := objects r ++ M\<rparr>"
  using assms
proof (induction files arbitrary: r)
  case Nil
  then have "r' = r\<lparr>objects := objects r ++ Map.empty\<rparr>" by simp
  then show ?case by (intro exI [of _ Map.empty]) simp
next
  case (Cons fc files)
  obtain f c where fc: "fc = (f, c)" by (cases fc)
  from Cons.prems fc obtain k where k: "construct_dest_file_path cwd d f src sub ctx = Inr k"
    by (cases "construct_dest_file_path cwd d f src sub ctx") auto
  let ?r1 = "osp_copy c \<lparr>osp_path = k, osp_conn_id = conn\<rparr> r"
  from k Cons.prems fc have "copy_files cwd d conn src sub ctx files ?r1 = (None, r')" by simp
  from Cons.IH [OF this] obtain M where
    M: "dom M = {k. \<exists>(f, c) \<in> set files. construct_dest_file_path cwd d f src sub ctx = Inr k}"
       "\<And>k c. M k = Some c
          \<Longrightarrow> \<exists>f. (f, c) \<in> set files \<and> construct_dest_file_path cwd d f src sub ctx = Inr k"
       "r' = ?r1\<lparr>objects := objects ?r1 ++ M\<rparr>"
    by blast
  let ?M = "[k \<mapsto> c] ++ M"
  have 1: "dom ?M = {k. \<exists>(f, c) \<in> set (fc # files). construct_dest_file_path cwd d f src sub ctx = Inr k}"
    using M(1) k fc by auto
  have 2: "\<exists>f. (f, c') \<in> set (fc # files) \<and> construct_dest_file_path cwd d f src sub ctx = Inr k'"
    if "?M k' = Some c'" for k' c'
  proof (cases "M k'")
    case (Some a)
    with that have "M k' = Some c'" by (simp add: map_add_def)
    from M(2) [OF this] show ?thesis by auto
  next
    case None
    with that have "k' = k \<and> c' = c" by (auto simp: map_add_def split: if_splits)
    with k fc show ?thesis by auto
  qed
  have "(objects r)(k \<mapsto> c) ++ M = objects r ++ ?M"
    by (metis map_add_assoc map_add_upd map_add_empty)
  then have 3: "r' = r\<lparr>objects := objects r ++ ?M\<rparr>"
    using M(3) by (simp add: osp_copy_def)
  from 1 2 3 show ?case by blast
qed

lemma copy_files_total:
  assumes "\<forall>(f, c) \<in> set files. \<exists>k. construct_dest_file_path cwd d f src sub ctx = Inr k"
  shows "\<exists>r'. copy_files cwd d conn src sub ctx files r = (None, r')"
  using assms
proof (induction files arbitrary: r)
  case Nil
  show ?case by simp
next
  case (Cons fc files)
  obtain f c where fc: "fc = (f, c)" by (cases fc)
  with Cons.prems obtain k where k: "construct_dest_file_path cwd d f src sub ctx = Inr k"
    by auto
  from Cons.prems have "\<forall>(f, c) \<in> set files. \<exists>k. construct_dest_file_path cwd d f src sub ctx = Inr k"
    by simp
  from Cons.IH [OF this, of "osp_copy c \<lparr>osp_path = k, osp_conn_id = conn\<rparr> r"] fc k
  show ?case by simp
qed



lemma example_src: "path_div ''p'' ''target'' = ([], [''p'', ''target''])"
  by code_simp

lemma example_files:
  "path_rglob_files example_fs (path_div ''p'' ''target'')
   = [(''p/target/run/results.json'', ''{}''), (''p/target/compiled/q.sql'', ''select 1'')]"
  by code_simp

lemma example_dest_1:
  "construct_dest_file_path ''/cwd'' ''s3://bucket'' ''p/target/run/results.json''
     (path_div ''p'' ''target'') ''target'' example_context
   = Inr ''s3://bucket/d1/r1/t1/2/target/run/results.json''"
  by code_simp

lemma example_dest_2:
  "construct_dest_file_path ''/cwd'' ''s3://bucket'' ''p/target/compiled/q.sql''
     (path_div ''p'' ''target'') ''target'' example_context
   = Inr ''s3://bucket/d1/r1/t1/2/target/compiled/q.sql''"
  by code_simp

lemma example_configure:
  "configure_remote_target_path (settings_s3 True) example_conn_map r
   = (Inr (Some \<lparr>osp_path = ''s3://bucket'', osp_conn_id = Some ''aws_default''\<rparr>,
           Some ''aws_default''),
      if osp_exists \<lparr>osp_path = ''s3://bucket'', osp_conn_id = Some ''aws_default''\<rparr> r then r
      else osp_mkdir \<lparr>osp_path = ''s3://bucket'', osp_conn_id = Some ''aws_default''\<rparr> r)"
  by (simp add: configure_cases falsy_def scheme_s3 settings_s3_def example_conn_map_def Let_def)


lemma example_upload_again:
  "upload_to_cloud_storage (settings_s3 True) example_conn_map osp_path ''/cwd'' example_fs
     ''p'' ''target'' example_context example_remote = (None, example_remote)"
  by (simp add: upload_to_cloud_storage_def example_configure example_files example_dest_1
      example_dest_2 osp_exists_def osp_mkdir_def osp_copy_def
      example_remote_def)





text \<open>
  With an absolute working directory, a destination that the resolver yields and a
  well-formed tree at the source directory, the generic publisher succeeds, and the store
  it leaves holds, under the destination key in closed form, the content of each regular
  file, and is unchanged at every other key.
\<close>

lemma upload_closed_form:
  assumes cwd: "isabs cwd"
    and cfg: "fst (configure_remote_target_path st conn_map r) = Inr (Some dest, conn)"
    and wf: "\<And>t. fs (path_str (path_div project_dir source_subpath)) = Some t \<Longrightarrow> wf_tree t"
  shows "\<exists>r'. upload_to_cloud_storage st conn_map osp_str cwd fs project_dir source_subpath ctx r
               = (None, r')
           \<and> (\<forall>rel c. (rel, c) \<in> files_under (fs (path_str (path_div project_dir source_subpath)))
                 \<longrightarrow> objects r' (dest_key (osp_str dest) source_subpath ctx rel) = Some c)
           \<and> (\<forall>k. (\<forall>rel c. (rel, c) \<in> files_under (fs (path_str (path_div project_dir source_subpath)))
                        \<longrightarrow> k \<noteq> dest_key (osp_str dest) source_subpath ctx rel)
                 \<longrightarrow> objects r' k = objects r k)"
proof -
  let ?src = "path_div project_dir source_subpath"
  let ?F = "files_under (fs (path_str ?src))"
  let ?key = "dest_key (osp_str dest) source_subpath ctx"
  let ?files = "path_rglob_files fs ?src"
  note fw = files_under_wf [of fs "path_str ?src", OF wf]
  obtain r1 where c: "configure_remote_target_path st conn_map r = (Inr (Some dest, conn), r1)"
    using cfg by (cases "configure_remote_target_path st conn_map r") auto
  have key: "construct_dest_file_path cwd (osp_str dest) (path_str (path_child ?src rel)) ?src
               source_subpath ctx = Inr (?key rel)"
    if "(rel, c) \<in> ?F" for rel c
    using construct_dest_file_path_child [OF cwd path_div_wf] fw(1) [OF _ that]
    by blast
  have "\<forall>(f, c) \<in> set ?files.
          \<exists>k. construct_dest_file_path cwd (osp_str dest) f ?src source_subpath ctx = Inr k"
    using key by (auto simp: path_rglob_files_set)
  from copy_files_total [OF this] obtain r' where
    f: "copy_files cwd (osp_str dest) conn ?src source_subpath ctx ?files r1 = (None, r')"
    by blast
  with c have run: "upload_to_cloud_storage st conn_map osp_str cwd fs project_dir source_subpath
      ctx r = (None, r')"
    by (simp add: upload_to_cloud_storage_def Let_def)
  from copy_files_values [OF f] obtain M where
    M: "dom M = {k. \<exists>(f, c) \<in> set ?files.
                  construct_dest_file_path cwd (osp_str dest) f ?src source_subpath ctx = Inr k}"
       "\<And>k c. M k = Some c \<Longrightarrow> \<exists>f. (f, c) \<in> set ?files
            \<and> construct_dest_file_path cwd (osp_str dest) f ?src source_subpath ctx = Inr k"
       "r' = r1\<lparr>objects := objects r1 ++ M\<rparr>"
    by blast
  have obj: "objects r' = objects r ++ M"
    using M(3) configure_success(1) [OF c] by simp
  have domM: "dom M = {?key rel | rel c. (rel, c) \<in> ?F}"
    unfolding M(1) using key by (auto simp: path_rglob_files_set)
  have val: "objects r' (?key rel) = Some c" if rc: "(rel, c) \<in> ?F" for rel c
  proof -
    from rc domM obtain c' where c': "M (?key rel) = Some c'" by blast
    from M(2) [OF this] obtain rel' where
      rel': "(rel', c') \<in> ?F"
      "construct_dest_file_path cwd (osp_str dest) (path_str (path_child ?src rel')) ?src
         source_subpath ctx = Inr (?key rel)"
      by (auto simp: path_rglob_files_set)
    with key [OF rel'(1)] have "?key rel' = ?key rel" by simp
    from dest_key_inj [OF _ _ _ _ this] fw(1) [OF _ rel'(1)] fw(1) [OF _ rc]
    have "rel' = rel" by blast
    with fw(2) [OF _ rc] rel'(1) have "c = c'" by blast
    with c' show ?thesis by (simp add: obj map_add_def)
  qed
  have other: "objects r' k = objects r k"
    if "\<forall>rel c. (rel, c) \<in> ?F \<longrightarrow> k \<noteq> ?key rel" for k
  proof -
    from that domM have "k \<notin> dom M" by blast
    then show ?thesis by (auto simp: obj map_add_def split: option.splits)
  qed
  from run val other show ?thesis by blast
qed

subsection \<open>The named backends\<close>




















subsection \<open>Publishing twice\<close>



subsection \<open>The JSON decoder\<close>

text \<open>
  Every value that the decoder reads takes at least one character, so the tests on the
  length of the rest in \<open>JSONArray\<close> and \<open>JSONObject\<close> never fail.
\<close>

lemma scanstring_length: "scanstring s chunks = Some (v, rest) \<Longrightarrow> length rest < length s"
proof (induction s chunks rule: scanstring.induct)
  case (1 chunks)
  then show ?case by simp
next
  case (2 c s chunks)
  show ?case
  proof (cases "c = CHR 0x22")
    case True
    with "2.prems" show ?thesis by simp
  next
    case nq: False
    show ?thesis
    proof (cases "c = CHR 0x5C")
      case False
      with nq "2.prems" "2.IH"(5) show ?thesis
        by (auto split: if_splits)
    next
      case True
      with nq "2.prems" obtain esc s' where s: "s = esc # s'"
        by (cases s) auto
      show ?thesis
      proof (cases "esc = CHR ''u''")
        case False
        with nq True s "2.prems" "2.IH"(1) [OF nq True s False] show ?thesis
          by (auto split: option.splits)
      next
        case u: True
        with nq True s "2.prems" obtain uni where uni: "decode_uXXXX s' = Some uni"
          by (auto split: option.splits)
        have "length rest < length (drop 4 s') \<or> length rest < length (drop 10 s')"
          using nq True s u uni "2.prems"
            "2.IH"(2) [OF nq True s _ uni] "2.IH"(3) [OF nq True s _ uni] "2.IH"(4) [OF nq True s _ uni]
          by (auto split: option.splits if_splits)
        then show ?thesis using s by auto
      qed
    qed
  qed
qed

lemma match_number_length: "match_number s = Some (v, rest) \<Longrightarrow> length rest < length s"
proof -
  assume a: "match_number s = Some (v, rest)"
  define sign where "sign = (if take 1 s = ''-'' then ''-'' else [])"
  define s1 where "s1 = drop (length sign) s"
  define digits where "digits = (if take 1 s1 = ''0'' then ''0'' else takeWhile is_digit s1)"
  define s2 where "s2 = drop (length digits) s1"
  define frac where "frac = (if take 1 s2 = ''.'' \<and> takeWhile is_digit (drop 1 s2) \<noteq> []
                  then ''.'' @ takeWhile is_digit (drop 1 s2) else [])"
  define s3 where "s3 = drop (length frac) s2"
  define esign where "esign = (if take 1 (drop 1 s3) = ''-'' \<or> take 1 (drop 1 s3) = ''+''
                   then take 1 (drop 1 s3) else [])"
  define edigits where "edigits = takeWhile is_digit (drop (1 + length esign) s3)"
  define exp where "exp = (if (take 1 s3 = ''e'' \<or> take 1 s3 = ''E'') \<and> edigits \<noteq> []
                 then take 1 s3 @ esign @ edigits else [])"
  define s4 where "s4 = drop (length exp) s3"
  have "match_number s =
      (if digits = [] then None
       else if frac \<noteq> [] \<or> exp \<noteq> [] then Some (JFloat (sign @ digits @ frac @ exp), s4)
       else Some (JInt ((if sign = [] then 1 else - 1)
                        * int (foldl (\<lambda>a d. 10 * a + digit_val d) 0 digits)), s4))"
    unfolding match_number_def Let_def sign_def s1_def digits_def s2_def frac_def s3_def
      esign_def edigits_def exp_def s4_def ..
  with a have d: "digits \<noteq> []" and rest: "rest = s4"
    by (auto split: if_splits)
  have "s1 \<noteq> []" using d by (auto simp: digits_def split: if_splits)
  with d have "length s2 < length s1" by (simp add: s2_def)
  moreover have "length s1 \<le> length s" by (simp add: s1_def)
  ultimately show ?thesis by (simp add: rest s4_def s3_def)
qed

lemma scan_once_literal:
  assumes "nextchar \<noteq> CHR 0x22" "nextchar \<noteq> CHR ''{''" "nextchar \<noteq> CHR ''[''"
    and "scan_once (nextchar # s) = Inr (v, rest)"
  shows "length rest < length (nextchar # s)"
proof (cases "match_number (nextchar # s)")
  case (Some a)
  with assms match_number_length [of "nextchar # s" v rest] show ?thesis
    by (cases a) (auto split: if_splits)
next
  case None
  with assms show ?thesis by (auto split: if_splits)
qed

lemma scan_once_consumes:
  "scan_once s = Inr (v, rest) \<Longrightarrow> length rest < length s"
  "JSONArray s vs = Inr (v, rest) \<Longrightarrow> length rest < length s"
  "JSONObject s ps = Inr (v, rest) \<Longrightarrow> length rest < length s"
proof (induction s and s vs and s ps arbitrary: v rest and v rest and v rest
    rule: scan_once_JSONArray_JSONObject.induct)
  case 1
  then show ?case by simp
next
  case (2 nextchar s)
  show ?case
  proof (cases "nextchar = CHR 0x22")
    case True
    with "2.prems" show ?thesis
      by (auto split: option.splits dest: scanstring_length)
  next
    case nq: False
    show ?thesis
    proof (cases "nextchar = CHR ''{''")
      case True
      with nq "2.prems" obtain d r where dr: "skip_ws s = d # r"
        by (cases "skip_ws s") auto
      from skip_ws_Cons_length [OF dr] have r: "length r < length s" .
      show ?thesis
      proof (cases "d = CHR ''}''")
        case True
        with nq \<open>nextchar = CHR ''{''\<close> dr "2.prems" r show ?thesis by auto
      next
        case False
        with nq \<open>nextchar = CHR ''{''\<close> dr "2.prems"
        have q: "d = CHR 0x22" and o: "JSONObject r [] = Inr (v, rest)"
          by (auto split: if_splits)
        from "2.IH"(1) [OF nq True dr False q o] r show ?thesis by simp
      qed
    next
      case nb: False
      show ?thesis
      proof (cases "nextchar = CHR ''[''")
        case True
        with nq nb "2.prems" obtain d r where dr: "skip_ws s = d # r"
          by (cases "skip_ws s") auto
        from length_skip_ws [of s] dr have r: "length (d # r) \<le> length s" by simp
        show ?thesis
        proof (cases "d = CHR '']''")
          case True
          with nq nb \<open>nextchar = CHR ''[''\<close> dr "2.prems" r show ?thesis by auto
        next
          case False
          with nq nb \<open>nextchar = CHR ''[''\<close> dr "2.prems"
          have o: "JSONArray (d # r) [] = Inr (v, rest)" by auto
          from "2.IH"(2) [OF nq nb True dr False o] r show ?thesis by simp
        qed
      next
        case False
        from scan_once_literal [OF nq nb False "2.prems"] show ?thesis .
      qed
    qed
  qed
next
  case (3 s "values")
  from "3.prems" obtain v' rest' where so: "scan_once s = Inr (v', rest')"
    by (cases "scan_once s") auto
  with "3.prems" have g: "length rest' < length s" by (auto split: if_splits)
  from so g "3.prems" obtain d r where dr: "skip_ws rest' = d # r"
    by (cases "skip_ws rest'") auto
  from skip_ws_Cons_length [OF dr] g have r: "length r < length s" by simp
  show ?case
  proof (cases "d = CHR '']''")
    case True
    with so g dr "3.prems" r show ?thesis by auto
  next
    case False
    with so g dr "3.prems" have c: "d = CHR '',''"
      and o: "JSONArray (skip_ws r) (values @ [v']) = Inr (v, rest)"
      by (auto split: if_splits)
    from "3.IH"(2) [OF so refl g dr False c o] length_skip_ws [of r] r
    show ?thesis by simp
  qed
next
  case (4 s pairs)
  from "4.prems" obtain key s1 where ss: "scanstring s [] = Some (key, s1)"
    by (cases "scanstring s []") auto
  with "4.prems" obtain c s2 where cs: "skip_ws s1 = c # s2"
    by (cases "skip_ws s1") auto
  from ss cs "4.prems" have col: "\<not> c \<noteq> CHR '':''" and g1: "length s2 < length s"
    by (auto split: if_splits)
  from ss cs col g1 "4.prems" obtain v' rest' where so: "scan_once (skip_ws s2) = Inr (v', rest')"
    by (cases "scan_once (skip_ws s2)") auto
  with ss cs col g1 "4.prems" have g2: "length rest' < length s" by (auto split: if_splits)
  from ss cs col g1 so g2 "4.prems" obtain d r where dr: "skip_ws rest' = d # r"
    by (cases "skip_ws rest'") auto
  from skip_ws_Cons_length [OF dr] g2 have r: "length r < length s" by simp
  show ?case
  proof (cases "d = CHR ''}''")
    case True
    with ss cs col g1 so g2 dr "4.prems" r show ?thesis by auto
  next
    case False
    with ss cs col g1 so g2 dr "4.prems" have c: "d = CHR '',''" by (auto split: if_splits)
    with False ss cs col g1 so g2 dr "4.prems" obtain q r' where qr: "skip_ws r = q # r'"
      by (cases "skip_ws r") auto
    with c False ss cs col g1 so g2 dr "4.prems" have q: "q = CHR 0x22"
      and o: "JSONObject r' (pairs @ [(key, v')]) = Inr (v, rest)"
      by (auto split: if_splits)
    from "4.IH"(2) [OF ss refl cs col g1 so refl g2 dr False c qr q o]
      skip_ws_Cons_length [OF qr] r
    show ?thesis by simp
  qed
qed

lemma JSONArray_unguarded:
  "JSONArray s values =
     (case scan_once s of
        Inl e \<Rightarrow> Inl e
      | Inr (v, rest) \<Rightarrow>
          (case skip_ws rest of
             [] \<Rightarrow> Inl JSONDecodeError
           | d # r \<Rightarrow>
               if d = CHR '']'' then Inr (JArray (values @ [v]), r)
               else if d = CHR '','' then JSONArray (skip_ws r) (values @ [v])
               else Inl JSONDecodeError))"
proof (cases "scan_once s")
  case (Inl e)
  then show ?thesis by (subst JSONArray.simps) simp
next
  case (Inr p)
  obtain v rest where p: "p = (v, rest)" by (cases p)
  from scan_once_consumes(1) [of s v rest] Inr p have "length rest < length s" by simp
  with Inr p show ?thesis by (subst JSONArray.simps) simp
qed

lemma JSONObject_unguarded:
  "JSONObject s pairs =
     (case scanstring s [] of
        None \<Rightarrow> Inl JSONDecodeError
      | Some (key, s1) \<Rightarrow>
          (case skip_ws s1 of
             [] \<Rightarrow> Inl JSONDecodeError
           | c # s2 \<Rightarrow>
               if c \<noteq> CHR '':'' then Inl JSONDecodeError
               else
                 (case scan_once (skip_ws s2) of
                    Inl e \<Rightarrow> Inl e
                  | Inr (v, rest) \<Rightarrow>
                      (case skip_ws rest of
                         [] \<Rightarrow> Inl JSONDecodeError
                       | d # r \<Rightarrow>
                           if d = CHR ''}'' then Inr (JObject (pairs @ [(key, v)]), r)
                           else if d = CHR '','' then
                             (case skip_ws r of
                                [] \<Rightarrow> Inl JSONDecodeError
                              | q # r' \<Rightarrow>
                                  if q = CHR 0x22 then JSONObject r' (pairs @ [(key, v)])
                                  else Inl JSONDecodeError)
                           else Inl JSONDecodeError))))"
proof (cases "scanstring s []")
  case None
  then show ?thesis by (subst JSONObject.simps) simp
next
  case (Some p)
  obtain key s1 where p: "p = (key, s1)" by (cases p)
  from scanstring_length [of s "[]" key s1] Some p have l1: "length s1 < length s" by simp
  show ?thesis
  proof (cases "skip_ws s1")
    case Nil
    with Some p show ?thesis by (subst JSONObject.simps) simp
  next
    case (Cons c s2)
    from skip_ws_Cons_length [OF Cons] l1 have l2: "length s2 < length s" by simp
    show ?thesis
    proof (cases "scan_once (skip_ws s2)")
      case (Inl e)
      with Some p Cons l2 show ?thesis by (subst JSONObject.simps) simp
    next
      case (Inr w)
      obtain v rest where w: "w = (v, rest)" by (cases w)
      from scan_once_consumes(1) [of "skip_ws s2" v rest] Inr w length_skip_ws [of s2] l2
      have "length rest < length s" by simp
      with Some p Cons l2 Inr w show ?thesis by (subst JSONObject.simps) simp
    qed
  qed
qed




subsection \<open>The log extractor\<close>














subsection \<open>Publishing the log\<close>





end
